theory Spec2Isabelle
  imports Main
begin

section \<open>Characters and strings\<close>

text \<open>
  A Python \<open>str\<close> is a sequence of code points. The model covers the code points
  0..255: a \<^typ>\<open>char\<close> stands for the code point of the same number, and a
  \<^typ>\<open>string\<close> for the Python string of these code points.
\<close>

abbreviation dquote :: char where
  "dquote \<equiv> CHR 0x22"

abbreviation backslash :: char where
  "backslash \<equiv> CHR 0x5C"

abbreviation newline :: char where
  "newline \<equiv> CHR 0x0A"

text \<open>
  \<open>str.isspace\<close> on one character; the regular expression class \<open>\s\<close> of a
  \<open>str\<close> pattern is the same set.
\<close>

definition isspace :: "char \<Rightarrow> bool" where
  "isspace c = (c \<in> set [CHR 0x09, CHR 0x0A, CHR 0x0B, CHR 0x0C, CHR 0x0D,
                          CHR 0x1C, CHR 0x1D, CHR 0x1E, CHR 0x1F, CHR 0x20,
                          CHR 0x85, CHR 0xA0])"

text \<open>The class \<open>\w\<close> of a \<open>str\<close> pattern: alphanumeric or underscore.\<close>

definition is_word :: "char \<Rightarrow> bool" where
  "is_word c =
     (let n = (of_char c :: nat) in
        (48 \<le> n \<and> n \<le> 57) \<or> (65 \<le> n \<and> n \<le> 90) \<or> n = 95 \<or> (97 \<le> n \<and> n \<le> 122) \<or>
        n = 170 \<or> (178 \<le> n \<and> n \<le> 179) \<or> n = 181 \<or> (185 \<le> n \<and> n \<le> 186) \<or>
        (188 \<le> n \<and> n \<le> 190) \<or> (192 \<le> n \<and> n \<le> 214) \<or> (216 \<le> n \<and> n \<le> 246) \<or>
        (248 \<le> n \<and> n \<le> 255))"

text \<open>
  \<open>str.lower\<close> on one character: the table pairs every upper-case letter below
  code point 256 with its lower-case letter; any other character is unchanged.
\<close>

definition lower_table :: "(char \<times> char) list" where
  "lower_table =
      [(CHR ''A'', CHR ''a''), (CHR ''B'', CHR ''b''), (CHR ''C'', CHR ''c''),
       (CHR ''D'', CHR ''d''), (CHR ''E'', CHR ''e''), (CHR ''F'', CHR ''f''),
       (CHR ''G'', CHR ''g''), (CHR ''H'', CHR ''h''), (CHR ''I'', CHR ''i''),
       (CHR ''J'', CHR ''j''), (CHR ''K'', CHR ''k''), (CHR ''L'', CHR ''l''),
       (CHR ''M'', CHR ''m''), (CHR ''N'', CHR ''n''), (CHR ''O'', CHR ''o''),
       (CHR ''P'', CHR ''p''), (CHR ''Q'', CHR ''q''), (CHR ''R'', CHR ''r''),
       (CHR ''S'', CHR ''s''), (CHR ''T'', CHR ''t''), (CHR ''U'', CHR ''u''),
       (CHR ''V'', CHR ''v''), (CHR ''W'', CHR ''w''), (CHR ''X'', CHR ''x''),
       (CHR ''Y'', CHR ''y''), (CHR ''Z'', CHR ''z''), (CHR 0xC0, CHR 0xE0),
       (CHR 0xC1, CHR 0xE1), (CHR 0xC2, CHR 0xE2), (CHR 0xC3, CHR 0xE3),
       (CHR 0xC4, CHR 0xE4), (CHR 0xC5, CHR 0xE5), (CHR 0xC6, CHR 0xE6),
       (CHR 0xC7, CHR 0xE7), (CHR 0xC8, CHR 0xE8), (CHR 0xC9, CHR 0xE9),
       (CHR 0xCA, CHR 0xEA), (CHR 0xCB, CHR 0xEB), (CHR 0xCC, CHR 0xEC),
       (CHR 0xCD, CHR 0xED), (CHR 0xCE, CHR 0xEE), (CHR 0xCF, CHR 0xEF),
       (CHR 0xD0, CHR 0xF0), (CHR 0xD1, CHR 0xF1), (CHR 0xD2, CHR 0xF2),
       (CHR 0xD3, CHR 0xF3), (CHR 0xD4, CHR 0xF4), (CHR 0xD5, CHR 0xF5),
       (CHR 0xD6, CHR 0xF6), (CHR 0xD8, CHR 0xF8), (CHR 0xD9, CHR 0xF9),
       (CHR 0xDA, CHR 0xFA), (CHR 0xDB, CHR 0xFB), (CHR 0xDC, CHR 0xFC),
       (CHR 0xDD, CHR 0xFD), (CHR 0xDE, CHR 0xFE)]"

definition lower_char :: "char \<Rightarrow> char" where
  "lower_char c = (case map_of lower_table c of Some l \<Rightarrow> l | None \<Rightarrow> c)"

definition lower :: "string \<Rightarrow> string" where
  "lower s = map lower_char s"

text \<open>\<open>str.strip()\<close>: leading and trailing whitespace removed.\<close>

definition strip :: "string \<Rightarrow> string" where
  "strip s = rev (dropWhile isspace (rev (dropWhile isspace s)))"

text \<open>\<open>s.replace("\\", "")\<close>: every backslash removed.\<close>

definition remove_backslashes :: "string \<Rightarrow> string" where
  "remove_backslashes s = filter (\<lambda>c. c \<noteq> backslash) s"


section \<open>The free-text tokenizer\<close>

text \<open>
  \<open>split_remaining\<close> of \<open>library/query_language.py\<close>. The \<open>for\<close> loop over the
  characters is \<open>split_loop\<close>, which carries the four local variables; its last
  equation is the code after the loop.
\<close>

fun split_loop :: "string list \<Rightarrow> string \<Rightarrow> bool \<Rightarrow> string \<Rightarrow> string \<Rightarrow> string list" where
  "split_loop result current_expression in_quotes previous_char [] =
     (let current_expression = strip current_expression in
        if current_expression \<noteq> [] then result @ [current_expression] else result)"
| "split_loop result current_expression in_quotes previous_char (char # rest) =
     (if char = dquote then
        (if in_quotes then
           split_loop (if current_expression \<noteq> [] then result @ [current_expression] else result)
             [] False [char] rest
         else
           (let current_expression = strip current_expression in
              split_loop (if current_expression \<noteq> [] then result @ [current_expression] else result)
                [] True [char] rest))
      else if char = CHR '' '' \<and> \<not> in_quotes \<and> previous_char \<noteq> [backslash] then
        (let current_expression = strip current_expression in
           split_loop (if current_expression \<noteq> [] then result @ [current_expression] else result)
             [] in_quotes [char] rest)
      else if char \<noteq> backslash then
        split_loop result (current_expression @ [char]) in_quotes [char] rest
      else
        split_loop result current_expression in_quotes [char] rest)"

definition split_remaining :: "string \<Rightarrow> string list" where
  "split_remaining string = split_loop [] [] False [] string"


section \<open>The keyword pattern\<close>

definition KEYWORDS :: "string list" where
  "KEYWORDS = [''artist'', ''work'', ''title'']"

text \<open>
  \<open>LANGUAGE_MATCHER\<close> is the regular expression
  \<^verbatim>\<open>\b(artist|work|title):\s?(?:""(.+?)""|"(.+?)"|((?:\\\s|\S)+))\<close>
  compiled with \<open>re.I\<close>. Each part of it is a function from the text at the current
  position to the captured text and the text after it, \<open>None\<close> when the part does not
  match. Nothing follows the value in the pattern, so the first way a value matches
  is the match.
\<close>

text \<open>
  \<open>(.+?)\<close> followed by \<open>closer\<close>: at least one character other than newline, as
  few as possible.
\<close>

fun lazy_dot_plus :: "string \<Rightarrow> string \<Rightarrow> (string \<times> string) option" where
  "lazy_dot_plus closer [] = None"
| "lazy_dot_plus closer (c # cs) =
     (if c = newline then None
      else if take (length closer) cs = closer then Some ([c], drop (length closer) cs)
      else (case lazy_dot_plus closer cs of
              None \<Rightarrow> None
            | Some (v, rest) \<Rightarrow> Some (c # v, rest)))"

text \<open>
  \<open>(?:\\\s|\S)*\<close>, greedy: a backslash with the whitespace after it, or else one
  character that is not whitespace, as often as possible.
\<close>

fun escaped_run :: "string \<Rightarrow> string \<times> string" where
  "escaped_run [] = ([], [])"
| "escaped_run [c] = (if \<not> isspace c then ([c], []) else ([], [c]))"
| "escaped_run (c # d # cs) =
     (if c = backslash \<and> isspace d then
        (case escaped_run cs of (v, rest) \<Rightarrow> (c # d # v, rest))
      else if \<not> isspace c then
        (case escaped_run (d # cs) of (v, rest) \<Rightarrow> (c # v, rest))
      else ([], c # d # cs))"

text \<open>
  The three alternatives of the value, in the pattern's order. The result is the
  groups 2, 3 and 4 (\<open>None\<close> for a group that took no part) and the text after
  the match.
\<close>

definition match_value ::
  "string \<Rightarrow> (string option \<times> string option \<times> string option \<times> string) option" where
  "match_value s =
     (case (if take 2 s = [dquote, dquote] then lazy_dot_plus [dquote, dquote] (drop 2 s)
            else None) of
        Some (v, rest) \<Rightarrow> Some (Some v, None, None, rest)
      | None \<Rightarrow>
          (case (if take 1 s = [dquote] then lazy_dot_plus [dquote] (drop 1 s) else None) of
             Some (v, rest) \<Rightarrow> Some (None, Some v, None, rest)
           | None \<Rightarrow>
               (case escaped_run s of
                  (v, rest) \<Rightarrow> if v \<noteq> [] then Some (None, None, Some v, rest) else None)))"

text \<open>\<open>\s?\<close> and the value: one whitespace character is taken first, then none.\<close>

definition match_space_value ::
  "string \<Rightarrow> (string option \<times> string option \<times> string option \<times> string) option" where
  "match_space_value s =
     (case (case s of [] \<Rightarrow> None | c # cs \<Rightarrow> if isspace c then match_value cs else None) of
        Some m \<Rightarrow> Some m
      | None \<Rightarrow> match_value s)"

text \<open>One keyword, without regard to case, the colon and the rest.\<close>

definition match_keyword ::
  "string \<Rightarrow> string \<Rightarrow>
   (string \<times> string option \<times> string option \<times> string option \<times> string) option" where
  "match_keyword kw s =
     (if length kw \<le> length s \<and> lower (take (length kw) s) = kw then
        (case drop (length kw) s of
           [] \<Rightarrow> None
         | c # cs \<Rightarrow>
             if c = CHR '':'' then
               (case match_space_value cs of
                  None \<Rightarrow> None
                | Some (g2, g3, g4, rest) \<Rightarrow> Some (take (length kw) s, g2, g3, g4, rest))
             else None)
      else None)"

text \<open>The alternation of the keywords: the first one with which the pattern matches.\<close>

fun match_keywords ::
  "string list \<Rightarrow> string \<Rightarrow>
   (string \<times> string option \<times> string option \<times> string option \<times> string) option" where
  "match_keywords [] s = None"
| "match_keywords (kw # kws) s =
     (case match_keyword kw s of
        Some m \<Rightarrow> Some m
      | None \<Rightarrow> match_keywords kws s)"

text \<open>
  \<open>\b\<close> between the text before the position and the text from it: exactly one of
  the two neighbouring characters is a word character, where the ends of the string
  count as not being one.
\<close>

definition word_boundary :: "string \<Rightarrow> string \<Rightarrow> bool" where
  "word_boundary left s =
     ((left \<noteq> [] \<and> is_word (last left)) \<noteq> (s \<noteq> [] \<and> is_word (hd s)))"

text \<open>
  The search for the leftmost match: \<open>left\<close> is the text already passed. The
  result is what \<open>LANGUAGE_MATCHER.split(query, maxsplit=1)\<close> returns when there is
  a match: the text before it, the four groups and the text after it.
\<close>

fun search ::
  "string \<Rightarrow> string \<Rightarrow>
   (string \<times> string \<times> string option \<times> string option \<times> string option \<times> string) option" where
  "search left [] = None"
| "search left (c # cs) =
     (case (if word_boundary left (c # cs) then match_keywords KEYWORDS (c # cs) else None) of
        Some (g1, g2, g3, g4, rest) \<Rightarrow> Some (left, g1, g2, g3, g4, rest)
      | None \<Rightarrow> search (left @ [c]) cs)"

text \<open>
  \<open>LANGUAGE_MATCHER.split(query, maxsplit=1)\<close>: \<open>None\<close> stands for the list of
  length 1 that \<open>split\<close> returns when the pattern does not occur.
\<close>

definition LANGUAGE_MATCHER_split ::
  "string \<Rightarrow>
   (string \<times> string \<times> string option \<times> string option \<times> string option \<times> string) option" where
  "LANGUAGE_MATCHER_split query = search [] query"

lemma length_strip_le: "length (strip s) \<le> length s"
proof -
  have "length (strip s) \<le> length (dropWhile isspace s)"
    unfolding strip_def using length_dropWhile_le [of isspace "rev (dropWhile isspace s)"] by simp
  also have "\<dots> \<le> length s" by (rule length_dropWhile_le)
  finally show ?thesis .
qed

lemma lazy_dot_plus_shorter:
  "lazy_dot_plus closer s = Some (v, rest) \<Longrightarrow> length rest < length s"
proof (induction s arbitrary: v rest)
  case Nil
  then show ?case by simp
next
  case (Cons c cs)
  then show ?case
    by (fastforce split: if_splits option.splits)
qed

lemma escaped_run_append: "escaped_run s = (v, rest) \<Longrightarrow> s = v @ rest"
  by (induction s arbitrary: v rest rule: escaped_run.induct)
     (auto split: if_splits prod.splits)

lemma match_value_shorter:
  assumes "match_value s = Some (g2, g3, g4, rest)"
  shows "length rest < length s"
proof -
  consider (exact) v where "lazy_dot_plus [dquote, dquote] (drop 2 s) = Some (v, rest)"
    | (quoted) v where "lazy_dot_plus [dquote] (drop 1 s) = Some (v, rest)"
    | (plain) v where "escaped_run s = (v, rest)" "v \<noteq> []"
    using assms unfolding match_value_def
    by (auto split: option.splits if_splits prod.splits)
  then show ?thesis
  proof cases
    case exact
    then show ?thesis using lazy_dot_plus_shorter [OF exact] by simp
  next
    case quoted
    then show ?thesis using lazy_dot_plus_shorter [OF quoted] by simp
  next
    case plain
    then show ?thesis using escaped_run_append [OF plain(1)] by simp
  qed
qed

lemma match_space_value_shorter:
  "match_space_value s = Some (g2, g3, g4, rest) \<Longrightarrow> length rest < length s"
  unfolding match_space_value_def
  by (cases s) (auto split: option.splits if_splits dest!: match_value_shorter)

lemma match_keyword_shorter:
  "match_keyword kw s = Some (g1, g2, g3, g4, rest) \<Longrightarrow> length rest < length s"
proof -
  assume m: "match_keyword kw s = Some (g1, g2, g3, g4, rest)"
  then obtain cs where d: "drop (length kw) s = CHR '':'' # cs"
    and v: "match_space_value cs = Some (g2, g3, g4, rest)"
    unfolding match_keyword_def
    by (auto split: if_splits list.splits option.splits)
  have "length cs < length s"
    using arg_cong [OF d, of length] by simp
  with match_space_value_shorter [OF v] show ?thesis by simp
qed

lemma match_keywords_shorter:
  "match_keywords kws s = Some (g1, g2, g3, g4, rest) \<Longrightarrow> length rest < length s"
  by (induction kws) (auto split: option.splits dest: match_keyword_shorter)

lemma search_shorter:
  "search left s = Some (b, g1, g2, g3, g4, rest) \<Longrightarrow> length rest < length s"
proof (induction s arbitrary: left)
  case Nil
  then show ?case by simp
next
  case (Cons c cs)
  show ?case
  proof (cases "if word_boundary left (c # cs) then match_keywords KEYWORDS (c # cs) else None")
    case None
    with Cons.prems have "search (left @ [c]) cs = Some (b, g1, g2, g3, g4, rest)" by simp
    from Cons.IH [OF this] show ?thesis by simp
  next
    case (Some m)
    with Cons.prems have "match_keywords KEYWORDS (c # cs) = Some (g1, g2, g3, g4, rest)"
      by (auto split: if_splits)
    then show ?thesis by (rule match_keywords_shorter)
  qed
qed

lemma split_after_shorter:
  "LANGUAGE_MATCHER_split query = Some (s0, s1, s2, s3, s4, s5) \<Longrightarrow>
     length (strip s5) < length query"
  unfolding LANGUAGE_MATCHER_split_def
  using search_shorter [of "[]" query s0 s1 s2 s3 s4 s5] length_strip_le [of s5] by simp


section \<open>The parser\<close>

datatype error = ValueError | AttributeError | KeyError

text \<open>
  The dictionary \<open>result\<close> of \<open>parse\<close>: its keys in the order of the literal, each
  with its list.
\<close>

type_synonym result_dict = "(string \<times> string list) list"

definition initial_result :: result_dict where
  "initial_result =
     [(''artists'', []), (''artists_exact'', []), (''works'', []), (''works_exact'', []),
      (''titles'', []), (''titles_exact'', []), (''remaining'', [])]"

text \<open>The list stored under \<open>key\<close> grows by \<open>xs\<close>; keys and order stay.\<close>

definition grow :: "string \<Rightarrow> string list \<Rightarrow> result_dict \<Rightarrow> result_dict" where
  "grow key xs d = map (\<lambda>(k, vs). if k = key then (k, vs @ xs) else (k, vs)) d"

text \<open>\<open>d[key].extend(xs)\<close>: a missing key raises \<open>KeyError\<close>.\<close>

definition dict_extend :: "string \<Rightarrow> string list \<Rightarrow> result_dict \<Rightarrow> error + result_dict" where
  "dict_extend key xs d =
     (case map_of d key of None \<Rightarrow> Inl KeyError | Some vs \<Rightarrow> Inr (grow key xs d))"

text \<open>
  \<open>d.get(key).append(x)\<close>: for a missing key \<open>get\<close> returns \<open>None\<close>, which has no
  \<open>append\<close>.
\<close>

definition dict_get_append :: "string \<Rightarrow> string \<Rightarrow> result_dict \<Rightarrow> error + result_dict" where
  "dict_get_append key x d =
     (case map_of d key of None \<Rightarrow> Inl AttributeError | Some vs \<Rightarrow> Inr (grow key [x] d))"

text \<open>\<open>a or b\<close> where \<open>a\<close> is a string or \<open>None\<close> and \<open>b\<close> a string.\<close>

definition or_str :: "string option \<Rightarrow> string \<Rightarrow> string" where
  "or_str a b = (case a of None \<Rightarrow> b | Some v \<Rightarrow> if v \<noteq> [] then v else b)"

text \<open>
  One pass through the body of the \<open>while True\<close> loop of \<open>parse\<close>, with the
  local variables of the source: the loop is left by \<open>break\<close> or by \<open>raise\<close>, or
  goes on with the new \<open>query\<close>.
\<close>

datatype loop_step = Break result_dict | Raise error | Continue string result_dict

definition parse_step :: "string \<Rightarrow> result_dict \<Rightarrow> loop_step" where
  "parse_step query result =
     (case LANGUAGE_MATCHER_split query of
        None \<Rightarrow>
          (case (if query \<noteq> [] then dict_extend ''remaining'' (split_remaining query) result
                 else Inr result) of
             Inl e \<Rightarrow> Raise e
           | Inr result \<Rightarrow> Break result)
      | Some (split0, split1, split2, split3, split4, split5) \<Rightarrow>
          (let remaining = strip split0;
               target = lower (strip split1 @ ''s'');
               value_exact = strip (or_str split2 []);
               value = strip (remove_backslashes (or_str split3 (or_str split4 [])))
           in case (if remaining \<noteq> []
                    then dict_extend ''remaining'' (split_remaining remaining) result
                    else Inr result) of
                Inl e \<Rightarrow> Raise e
              | Inr result \<Rightarrow>
                  (case (if value \<noteq> [] \<and> \<not> value_exact \<noteq> [] then
                           dict_get_append target value result
                         else if value_exact \<noteq> [] \<and> \<not> value \<noteq> [] then
                           dict_get_append (target @ ''_exact'') value_exact result
                         else Inl ValueError) of
                     Inl e \<Rightarrow> Raise e
                   | Inr result \<Rightarrow> Continue (strip split5) result)))"

lemma parse_step_shorter:
  assumes "parse_step query result = Continue query' result'"
  shows "length query' < length query"
proof (cases "LANGUAGE_MATCHER_split query")
  case None
  with assms show ?thesis
    by (simp add: parse_step_def split: sum.splits)
next
  case (Some m)
  obtain s0 s1 s2 s3 s4 s5 where m: "m = (s0, s1, s2, s3, s4, s5)"
    by (cases m) auto
  from assms Some m have "query' = strip s5"
    by (simp add: parse_step_def Let_def split: sum.splits)
  with split_after_shorter [of query s0 s1 s2 s3 s4 s5] Some m show ?thesis
    by simp
qed

function parse_loop :: "string \<Rightarrow> result_dict \<Rightarrow> error + result_dict" where
  "parse_loop query result =
     (case parse_step query result of
        Break result \<Rightarrow> Inr result
      | Raise e \<Rightarrow> Inl e
      | Continue query result \<Rightarrow> parse_loop query result)"
  by pat_completeness auto
termination
  by (relation "measure (\<lambda>(query, result). length query)")
     (auto dest: parse_step_shorter)

declare parse_loop.simps [simp del]

definition parse :: "string \<Rightarrow> error + result_dict" where
  "parse query = parse_loop query initial_result"

text \<open>
  The same loop with a bound on the number of passes: \<open>None\<close> when the bound is
  reached before the loop is left.
\<close>

fun parse_fuel :: "nat \<Rightarrow> string \<Rightarrow> result_dict \<Rightarrow> (error + result_dict) option" where
  "parse_fuel 0 query result = None"
| "parse_fuel (Suc n) query result =
     (case parse_step query result of
        Break result \<Rightarrow> Some (Inr result)
      | Raise e \<Rightarrow> Some (Inl e)
      | Continue query result \<Rightarrow> parse_fuel n query result)"

text \<open>
  The keyword matches that the loop meets, from left to right: for each, the keyword
  as written and the groups 2, 3 and 4.
\<close>

function keyword_matches ::
  "string \<Rightarrow> (string \<times> string option \<times> string option \<times> string option) list" where
  "keyword_matches query =
     (case LANGUAGE_MATCHER_split query of
        None \<Rightarrow> []
      | Some (split0, split1, split2, split3, split4, split5) \<Rightarrow>
          (split1, split2, split3, split4) # keyword_matches (strip split5))"
  by pat_completeness auto
termination
  by (relation "measure length") (auto dest: split_after_shorter)

declare keyword_matches.simps [simp del]

text \<open>
  The values of the matches of keyword \<open>kw\<close> by quoting style, as the parser stores
  them: the doubled-quoted ones stripped, the others without backslashes and stripped.
\<close>

definition doubled_quoted_values :: "string \<Rightarrow> string \<Rightarrow> string list" where
  "doubled_quoted_values kw query =
     concat (map (\<lambda>(g1, g2, g3, g4).
       if lower g1 = kw then (case g2 of Some v \<Rightarrow> [strip v] | None \<Rightarrow> []) else [])
       (keyword_matches query))"

definition quoted_or_plain_values :: "string \<Rightarrow> string \<Rightarrow> string list" where
  "quoted_or_plain_values kw query =
     concat (map (\<lambda>(g1, g2, g3, g4).
       if lower g1 = kw then
         (case g2 of
            Some v \<Rightarrow> []
          | None \<Rightarrow>
              (case g3 of
                 Some v \<Rightarrow> [strip (remove_backslashes v)]
               | None \<Rightarrow>
                   (case g4 of Some v \<Rightarrow> [strip (remove_backslashes v)] | None \<Rightarrow> [])))
       else [])
       (keyword_matches query))"


section \<open>The song search\<close>

text \<open>
  \<open>SongListView.get_queryset\<close> of \<open>library/views.py\<close>. A \<open>Q\<close> object is kept as
  it is written: \<open>Q(keyword=value)\<close> with a string (\<open>Q\<close>) or a truth value
  (\<open>Q_flag\<close>), the empty \<open>Q()\<close>, and the operators \<open>|\<close> and \<open>&\<close>. A query
  set is the list of the calls made on \<open>Song.objects.all()\<close>, in order.
\<close>

datatype Q = Q string string | Q_flag string bool | Q_empty | Q_or Q Q | Q_and Q Q

datatype queryset_call = Exclude Q | Filter Q | Distinct | Order_by_lower string

type_synonym query_set = "queryset_call list"

text \<open>
  The parsed query that \<open>get_queryset\<close> reads: \<open>res["artist"]["contains"]\<close> is
  \<open>contains (artist res)\<close>, and \<open>res["work_type"]\<close> is a dictionary from query names
  to such pairs of lists.
\<close>

record terms =
  contains :: "string list"
  exact :: "string list"

record parsed_query =
  artist :: terms
  title :: terms
  work :: terms
  work_type :: "(string \<times> terms) list"
  remaining :: "string list"
  tag :: "string list"

text \<open>
  The \<open>for\<close> loops that fill \<open>query_list\<close> and \<open>query_list_many\<close>, in the order
  of the source; each loop appends one object for each term.
\<close>

definition search_terms :: "parsed_query \<Rightarrow> Q list \<times> Q list" where
  "search_terms res =
     (let query_list = [];
          query_list_many = [];
          query_list_many =
            foldl (\<lambda>query_list_many a.
              query_list_many @ [Q ''artists__name__icontains'' a])
              query_list_many (contains (artist res));
          query_list_many =
            foldl (\<lambda>query_list_many a.
              query_list_many @ [Q ''artists__name__iexact'' a])
              query_list_many (exact (artist res));
          query_list =
            foldl (\<lambda>query_list t. query_list @ [Q ''title__icontains'' t])
              query_list (contains (title res));
          query_list =
            foldl (\<lambda>query_list t. query_list @ [Q ''title__iexact'' t])
              query_list (exact (title res));
          query_list =
            foldl (\<lambda>query_list w.
              query_list @
                [Q_or (Q ''works__title__icontains'' w)
                      (Q ''works__alternative_title__title__icontains'' w)])
              query_list (contains (work res));
          query_list =
            foldl (\<lambda>query_list w.
              query_list @
                [Q_or (Q ''works__title__iexact'' w)
                      (Q ''works__alternative_title__title__iexact'' w)])
              query_list (exact (work res));
          query_list =
            foldl (\<lambda>query_list (query_name, search_keywords).
              foldl (\<lambda>query_list keyword.
                query_list @
                  [Q_and (Q_or (Q ''works__title__iexact'' keyword)
                               (Q ''works__alternative_title__title__iexact'' keyword))
                         (Q ''works__work_type__query_name'' query_name)])
                (foldl (\<lambda>query_list keyword.
                   query_list @
                     [Q_and (Q_or (Q ''works__title__icontains'' keyword)
                                  (Q ''works__alternative_title__title__icontains'' keyword))
                            (Q ''works__work_type__query_name'' query_name)])
                   query_list (contains search_keywords))
                (exact search_keywords))
              query_list (work_type res);
          query_list =
            foldl (\<lambda>query_list remain.
              query_list @
                [Q_or (Q_or (Q_or (Q_or (Q_or (Q_or
                   (Q ''title__icontains'' remain)
                   (Q ''artists__name__icontains'' remain))
                   (Q ''works__title__icontains'' remain))
                   (Q ''works__alternative_title__title__icontains'' remain))
                   (Q ''version__icontains'' remain))
                   (Q ''detail__icontains'' remain))
                   (Q ''detail_video__icontains'' remain)])
              query_list (remaining res);
          query_list_many =
            foldl (\<lambda>query_list_many t. query_list_many @ [Q ''tags__name'' t])
              query_list_many (tag res)
      in (query_list, query_list_many))"

text \<open>
  The gathering of the objects: \<open>query_list\<close> is folded with \<open>&\<close> into one filter,
  then every object of \<open>query_list_many\<close> is a filter call of its own.
\<close>

definition apply_search :: "parsed_query \<Rightarrow> query_set \<Rightarrow> query_set" where
  "apply_search res query_set =
     (case search_terms res of
        (query_list, query_list_many) \<Rightarrow>
          (let filter_query = foldl Q_and Q_empty query_list;
               query_set = query_set @ [Filter filter_query]
           in foldl (\<lambda>query_set item. query_set @ [Filter item]) query_set query_list_many))"


text \<open>The list under \<open>key\<close> in a result of \<open>parse\<close>, empty when there is none.\<close>

definition entry :: "result_dict \<Rightarrow> string \<Rightarrow> string list" where
  "entry d key = (case map_of d key of None \<Rightarrow> [] | Some vs \<Rightarrow> vs)"



section \<open>Properties of the tokenizer\<close>

lemma set_strip_subset: "set (strip s) \<subseteq> set s"
proof -
  have "set (strip s) = set (dropWhile isspace (rev (dropWhile isspace s)))"
    by (simp add: strip_def)
  also have "\<dots> \<subseteq> set (rev (dropWhile isspace s))"
    by (auto dest: set_dropWhileD)
  also have "\<dots> \<subseteq> set s"
    by (auto dest: set_dropWhileD)
  finally show ?thesis .
qed

lemma dropWhile_none: "\<forall>x\<in>set xs. \<not> P x \<Longrightarrow> dropWhile P xs = xs"
  by (cases xs) auto

lemma strip_no_space: "\<forall>c\<in>set t. \<not> isspace c \<Longrightarrow> strip t = t"
  by (simp add: strip_def dropWhile_none)

lemma in_strip: "c \<in> set (strip s) \<Longrightarrow> c \<in> set s"
  using set_strip_subset [of s] by auto

lemma split_loop_backslash_origin:
  assumes "x \<in> set (split_loop result cur inq prev s)" "backslash \<in> set x"
  shows "(\<exists>y\<in>set result. backslash \<in> set y) \<or> backslash \<in> set cur"
  using assms
proof (induction s arbitrary: result cur inq prev)
  case Nil
  then show ?case
    by (auto simp: Let_def split: if_splits dest: in_strip)
next
  case (Cons c s)
  from Cons.prems(1) consider
      (a) "x \<in> set (split_loop (if cur \<noteq> [] then result @ [cur] else result) [] False [c] s)"
    | (b) "x \<in> set (split_loop (if strip cur \<noteq> [] then result @ [strip cur] else result)
                       [] True [c] s)"
    | (c) "x \<in> set (split_loop (if strip cur \<noteq> [] then result @ [strip cur] else result)
                       [] inq [c] s)"
    | (d) "c \<noteq> backslash" "x \<in> set (split_loop result (cur @ [c]) inq [c] s)"
    | (e) "x \<in> set (split_loop result cur inq [c] s)"
    by (simp add: Let_def split: if_splits)
  then show ?case
  proof cases
    case a
    from Cons.IH [OF a Cons.prems(2)] show ?thesis by (auto split: if_splits)
  next
    case b
    from Cons.IH [OF b Cons.prems(2)] show ?thesis by (auto split: if_splits dest: in_strip)
  next
    case c
    from Cons.IH [OF c Cons.prems(2)] show ?thesis by (auto split: if_splits dest: in_strip)
  next
    case d
    from Cons.IH [OF d(2) Cons.prems(2)] d(1) show ?thesis by auto
  next
    case e
    from Cons.IH [OF e Cons.prems(2)] show ?thesis .
  qed
qed

lemma split_loop_plain:
  assumes "\<forall>c\<in>set t. c \<noteq> dquote \<and> c \<noteq> CHR '' '' \<and> c \<noteq> backslash"
  shows "split_loop result cur inq prev t =
         (if strip (cur @ t) \<noteq> [] then result @ [strip (cur @ t)] else result)"
  using assms
  by (induction t arbitrary: cur prev) (auto simp: Let_def)

text \<open>
  C8. The claim: a token that \<open>split_remaining\<close> has produced, that is not empty and
  has no internal whitespace and no double quote, is tokenized again to the list of
  that one token. A token taken from a quoted region is kept as it is written: from
  the string \<open>" x "\<close>, quotes included, the tokenizer produces the token of a space,
  \<open>x\<close> and a space. It has no whitespace between its other characters and no quote,
  but tokenized again it gives \<open>x\<close> without the spaces.
\<close>

theorem quoted_token_not_idempotent:
  "'' x '' \<in> set (split_remaining ''\" x \"'') \<and>
   '' x '' \<noteq> [] \<and>
   list_all (\<lambda>c. \<not> isspace c) (strip '' x '') \<and>
   dquote \<notin> set '' x '' \<and>
   split_remaining '' x '' = [''x''] \<and>
   split_remaining '' x '' \<noteq> ['' x '']"
  by (simp add: split_remaining_def strip_def isspace_def)

text \<open>
  C8 as amended: a token that \<open>split_remaining\<close> has produced, that is not empty and
  contains no whitespace character at all, neither inside nor at its ends, and no
  double quote, is tokenized again to the list of that one token, unchanged.
\<close>


theorem split_remaining_idempotent:
  assumes "t \<in> set (split_remaining s)"
    and "t \<noteq> []"
    and "\<forall>c\<in>set t. \<not> isspace c"
    and "dquote \<notin> set t"
  shows "split_remaining t = [t]"
proof -
  have "backslash \<notin> set t"
    using assms(1) split_loop_backslash_origin [of t "[]" "[]" False "[]" s]
    by (auto simp: split_remaining_def)
  moreover have "CHR '' '' \<notin> set t"
    using assms(3) by (auto simp: isspace_def)
  ultimately have "\<forall>c\<in>set t. c \<noteq> dquote \<and> c \<noteq> CHR '' '' \<and> c \<noteq> backslash"
    using assms(4) by auto
  from split_loop_plain [OF this, of "[]" "[]" False "[]"] assms(2) strip_no_space [OF assms(3)]
  show ?thesis by (simp add: split_remaining_def)
qed

theorem split_remaining_idempotent_witness:
  "''world'' \<in> set (split_remaining (''hello'' @ [backslash] @ '' big  world'')) \<and>
   ''world'' \<noteq> [] \<and> list_all (\<lambda>c. \<not> isspace c) ''world'' \<and> dquote \<notin> set ''world'' \<and>
   split_remaining ''world'' = [''world'']"
proof -
  have m: "''world'' \<in> set (split_remaining (''hello'' @ [backslash] @ '' big  world''))"
    by code_simp
  have n: "''world'' \<noteq> []" by simp
  have w: "\<forall>c\<in>set ''world''. \<not> isspace c" by (simp add: isspace_def)
  have q: "dquote \<notin> set ''world''" by simp
  have a: "list_all (\<lambda>c. \<not> isspace c) ''world''" by (simp add: isspace_def)
  show ?thesis
    using m n a q split_remaining_idempotent [OF m n w q] by simp
qed



section \<open>Properties of the parser\<close>

text \<open>
  C3. The claim: for every input string \<open>parse\<close> never raises, the branch that raises
  the inconsistency being unreachable. The pattern asks for a value that is not empty,
  but the value is stripped afterwards: on the query \<open>artist:" "\<close> the quoted value is
  one space, both \<open>value\<close> and \<open>value_exact\<close> are empty after \<open>strip\<close>, and the
  branch is taken.
\<close>

theorem parse_blank_value_raises: "parse ''artist:\" \"'' = Inl ValueError"
  by code_simp

text \<open>
  C10. Double quotes do not shield a keyword: the tokenizer alone reads the query
  \<open>"artist:foo"\<close>, quotes included, as the one token \<open>artist:foo\<close>, but \<open>parse\<close>
  finds the keyword inside the quotes and stores the value \<open>foo"\<close> in the list of
  artists, leaving no free-text token.
\<close>

theorem quoted_keyword_still_extracted:
  "split_remaining ''\"artist:foo\"'' = [''artist:foo''] \<and>
   parse ''\"artist:foo\"'' =
     Inr [(''artists'', [''foo\"'']), (''artists_exact'', []), (''works'', []),
          (''works_exact'', []), (''titles'', []), (''titles_exact'', []),
          (''remaining'', [])]"
  by code_simp

text \<open>
  C7. For every input string in which the keyword pattern does not occur, \<open>parse\<close>
  returns empty lists for every category, contains and exact, and its list
  \<open>remaining\<close> is \<open>split_remaining\<close> of the whole input.
\<close>

theorem parse_without_keyword:
  assumes "LANGUAGE_MATCHER_split query = None"
  shows "parse query =
     Inr [(''artists'', []), (''artists_exact'', []), (''works'', []), (''works_exact'', []),
          (''titles'', []), (''titles_exact'', []), (''remaining'', split_remaining query)]"
proof (cases "query = []")
  case True
  with assms show ?thesis
    by (simp add: parse_def parse_loop.simps parse_step_def initial_result_def
        split_remaining_def strip_def)
next
  case False
  with assms show ?thesis
    by (simp add: parse_def parse_loop.simps parse_step_def initial_result_def
        dict_extend_def grow_def)
qed

theorem parse_without_keyword_witness:
  "LANGUAGE_MATCHER_split ''hello world'' = None \<and>
   parse ''hello world'' =
     Inr [(''artists'', []), (''artists_exact'', []), (''works'', []), (''works_exact'', []),
          (''titles'', []), (''titles_exact'', []), (''remaining'', [''hello'', ''world''])]"
proof -
  have n: "LANGUAGE_MATCHER_split ''hello world'' = None" by code_simp
  have t: "split_remaining ''hello world'' = [''hello'', ''world'']" by code_simp
  show ?thesis using n parse_without_keyword [OF n] t by simp
qed

lemma parse_fuel_enough:
  "length query < n \<Longrightarrow> parse_fuel n query result = Some (parse_loop query result)"
proof (induction n arbitrary: query result)
  case 0
  then show ?case by simp
next
  case (Suc n)
  show ?case
  proof (cases "parse_step query result")
    case (Break r)
    then show ?thesis by (simp add: parse_loop.simps)
  next
    case (Raise e)
    then show ?thesis by (simp add: parse_loop.simps)
  next
    case (Continue q r)
    from parse_step_shorter [OF Continue] Suc.prems have "length q < n" by simp
    from Suc.IH [OF this] Continue show ?thesis
      by (simp add: parse_loop.simps [of query result])
  qed
qed

text \<open>
  C9. For every input string \<open>parse\<close> terminates: a pass of the loop that goes on
  does so with a string strictly shorter than the one it scanned (the stripped text
  after the first match), so the loop is left after at most as many passes as the
  input has characters, plus the last one.
\<close>

theorem parse_terminates:
  "(parse_step query result = Continue query' result' \<longrightarrow> length query' < length query) \<and>
   parse_fuel (Suc (length query)) query result = Some (parse_loop query result)"
  using parse_step_shorter [of query result query' result']
    parse_fuel_enough [of query "Suc (length query)" result]
  by simp

theorem parse_terminates_witness:
  "parse_step ''a title:b c'' initial_result =
     Continue ''c'' [(''artists'', []), (''artists_exact'', []), (''works'', []),
          (''works_exact'', []), (''titles'', [''b'']), (''titles_exact'', []),
          (''remaining'', [''a''])] \<and>
   length ''c'' < length ''a title:b c'' \<and>
   parse_fuel (Suc (length ''a title:b c'')) ''a title:b c'' initial_result =
     Some (Inr [(''artists'', []), (''artists_exact'', []), (''works'', []),
          (''works_exact'', []), (''titles'', [''b'']), (''titles_exact'', []),
          (''remaining'', [''a'', ''c''])])"
proof -
  have s: "parse_step ''a title:b c'' initial_result =
     Continue ''c'' [(''artists'', []), (''artists_exact'', []), (''works'', []),
          (''works_exact'', []), (''titles'', [''b'']), (''titles_exact'', []),
          (''remaining'', [''a''])]"
    by code_simp
  have l: "parse_loop ''a title:b c'' initial_result =
     Inr [(''artists'', []), (''artists_exact'', []), (''works'', []),
          (''works_exact'', []), (''titles'', [''b'']), (''titles_exact'', []),
          (''remaining'', [''a'', ''c''])]"
    by code_simp
  show ?thesis
    using s l parse_terminates [of "''a title:b c''" initial_result "''c''"
      "[(''artists'', []), (''artists_exact'', []), (''works'', []),
          (''works_exact'', []), (''titles'', [''b'']), (''titles_exact'', []),
          (''remaining'', [''a''])]"]
    by simp
qed

text \<open>
  C6. The claim: the categorized query that \<open>parse\<close> returns is a nested mapping
  from each category name to a record of the lists contains and exact, with the list
  remaining beside them. The dictionary of \<open>parse\<close> is flat: for the query
  \<open>artist:a\<close> it has the seven entries below, each a list of strings, and no entry
  under the category name \<open>artist\<close>.
\<close>

theorem parse_result_nested_counterexample:
  "parse ''artist:a'' =
     Inr [(''artists'', [''a'']), (''artists_exact'', []), (''works'', []),
          (''works_exact'', []), (''titles'', []), (''titles_exact'', []),
          (''remaining'', [])] \<and>
   map_of [(''artists'', [''a'']), (''artists_exact'', []), (''works'', []),
          (''works_exact'', []), (''titles'', []), (''titles_exact'', []),
          (''remaining'', [])] ''artist'' = None"
  by code_simp

lemma map_fst_grow: "map fst (grow key xs d) = map fst d"
  by (induction d) (auto simp: grow_def)

lemma dict_extend_keys: "dict_extend key xs d = Inr d' \<Longrightarrow> map fst d' = map fst d"
  by (auto simp: dict_extend_def map_fst_grow split: option.splits)

lemma dict_get_append_keys: "dict_get_append key x d = Inr d' \<Longrightarrow> map fst d' = map fst d"
  by (auto simp: dict_get_append_def map_fst_grow split: option.splits)

lemma parse_step_break_keys:
  "parse_step query result = Break r \<Longrightarrow> map fst r = map fst result"
  by (cases "LANGUAGE_MATCHER_split query")
     (auto simp: parse_step_def Let_def split: sum.splits if_splits dest: dict_extend_keys)

lemma parse_step_continue_keys:
  assumes "parse_step query result = Continue q r"
  shows "map fst r = map fst result"
proof (cases "LANGUAGE_MATCHER_split query")
  case None
  with assms show ?thesis
    by (auto simp: parse_step_def split: sum.splits if_splits)
next
  case (Some m)
  obtain s0 s1 s2 s3 s4 s5 where m: "m = (s0, s1, s2, s3, s4, s5)"
    by (cases m) auto
  from assms Some m obtain r1 where
    r1: "(if strip s0 \<noteq> [] then dict_extend ''remaining'' (split_remaining (strip s0)) result
          else Inr result) = Inr r1"
    and r: "dict_get_append (lower (strip s1 @ ''s'')) (strip (remove_backslashes (or_str s3 (or_str s4 [])))) r1 = Inr r \<or>
            dict_get_append (lower (strip s1 @ ''s'') @ ''_exact'') (strip (or_str s2 [])) r1 = Inr r"
    by (auto simp: parse_step_def Let_def split: sum.splits if_splits)
  from r1 have "map fst r1 = map fst result"
    by (auto split: if_splits dest: dict_extend_keys)
  moreover from r have "map fst r = map fst r1"
    by (auto dest: dict_get_append_keys)
  ultimately show ?thesis by simp
qed

lemma parse_loop_keys:
  "parse_loop query result = Inr r \<Longrightarrow> map fst r = map fst result"
proof (induction query result rule: parse_loop.induct)
  case (1 query result)
  show ?case
  proof (cases "parse_step query result")
    case (Break r')
    with "1.prems" have "r = r'" by (simp add: parse_loop.simps [of query result])
    with parse_step_break_keys [OF Break] show ?thesis by simp
  next
    case (Raise e)
    with "1.prems" show ?thesis by (simp add: parse_loop.simps [of query result])
  next
    case (Continue q' r')
    with "1.prems" have "parse_loop q' r' = Inr r"
      by (simp add: parse_loop.simps [of query result])
    from "1.IH" [OF Continue this] parse_step_continue_keys [OF Continue]
    show ?thesis by simp
  qed
qed

text \<open>
  C6 as amended: whenever \<open>parse\<close> returns, its result is a flat dictionary with
  exactly the seven keys \<open>artists\<close>, \<open>artists_exact\<close>, \<open>works\<close>, \<open>works_exact\<close>,
  \<open>titles\<close>, \<open>titles_exact\<close> and \<open>remaining\<close>, in this order, each with a list of
  strings: the contains list of a category is under the plural of its name and its
  exact list under the plural followed by \<open>_exact\<close>.
\<close>

theorem parse_result_keys:
  "parse query = Inr r \<Longrightarrow>
     map fst r = [''artists'', ''artists_exact'', ''works'', ''works_exact'',
                  ''titles'', ''titles_exact'', ''remaining'']"
  using parse_loop_keys [of query initial_result r]
  by (simp add: parse_def initial_result_def)

theorem parse_result_keys_witness:
  "parse ''some artist:\"\"A B\"\" words'' =
     Inr [(''artists'', []), (''artists_exact'', [''A B'']), (''works'', []),
          (''works_exact'', []), (''titles'', []), (''titles_exact'', []),
          (''remaining'', [''some'', ''words''])] \<and>
   map fst [(''artists'', []), (''artists_exact'', [''A B'']), (''works'', []),
          (''works_exact'', []), (''titles'', []), (''titles_exact'', []),
          (''remaining'', [''some'', ''words''])] =
     [''artists'', ''artists_exact'', ''works'', ''works_exact'',
      ''titles'', ''titles_exact'', ''remaining'']"
proof -
  have p: "parse ''some artist:\"\"A B\"\" words'' =
     Inr [(''artists'', []), (''artists_exact'', [''A B'']), (''works'', []),
          (''works_exact'', []), (''titles'', []), (''titles_exact'', []),
          (''remaining'', [''some'', ''words''])]"
    by code_simp
  show ?thesis using p parse_result_keys [OF p] by simp
qed


subsection \<open>What a match captures\<close>

text \<open>
  A match has a keyword of the keyword set, in any case, and exactly one of the three
  value groups, which is not empty.
\<close>

lemma lazy_dot_plus_nonempty: "lazy_dot_plus closer s = Some (v, rest) \<Longrightarrow> v \<noteq> []"
  by (cases s) (auto split: if_splits option.splits)

lemma match_value_groups:
  assumes "match_value s = Some (g2, g3, g4, rest)"
  shows "\<exists>v. v \<noteq> [] \<and>
           ((g2 = Some v \<and> g3 = None \<and> g4 = None) \<or>
            (g2 = None \<and> g3 = Some v \<and> g4 = None) \<or>
            (g2 = None \<and> g3 = None \<and> g4 = Some v))"
  using assms unfolding match_value_def
  by (auto split: option.splits if_splits prod.splits dest: lazy_dot_plus_nonempty)

lemma match_space_value_groups:
  assumes "match_space_value s = Some (g2, g3, g4, rest)"
  shows "\<exists>v. v \<noteq> [] \<and>
           ((g2 = Some v \<and> g3 = None \<and> g4 = None) \<or>
            (g2 = None \<and> g3 = Some v \<and> g4 = None) \<or>
            (g2 = None \<and> g3 = None \<and> g4 = Some v))"
proof -
  from assms obtain s' where "match_value s' = Some (g2, g3, g4, rest)"
    unfolding match_space_value_def
    by (auto split: option.splits list.splits if_splits)
  then show ?thesis by (rule match_value_groups)
qed

lemma match_keyword_groups:
  assumes "match_keyword kw s = Some (g1, g2, g3, g4, rest)"
  shows "lower g1 = kw \<and>
         (\<exists>v. v \<noteq> [] \<and>
           ((g2 = Some v \<and> g3 = None \<and> g4 = None) \<or>
            (g2 = None \<and> g3 = Some v \<and> g4 = None) \<or>
            (g2 = None \<and> g3 = None \<and> g4 = Some v)))"
proof -
  from assms obtain cs where "lower g1 = kw"
    and "match_space_value cs = Some (g2, g3, g4, rest)"
    unfolding match_keyword_def
    by (auto split: if_splits list.splits option.splits)
  then show ?thesis using match_space_value_groups by blast
qed

lemma match_keywords_groups:
  "match_keywords kws s = Some (g1, g2, g3, g4, rest) \<Longrightarrow>
     lower g1 \<in> set kws \<and>
     (\<exists>v. v \<noteq> [] \<and>
       ((g2 = Some v \<and> g3 = None \<and> g4 = None) \<or>
        (g2 = None \<and> g3 = Some v \<and> g4 = None) \<or>
        (g2 = None \<and> g3 = None \<and> g4 = Some v)))"
proof (induction kws)
  case Nil
  then show ?case by simp
next
  case (Cons kw kws)
  show ?case
  proof (cases "match_keyword kw s")
    case None
    with Cons show ?thesis by simp
  next
    case (Some m)
    with Cons.prems have "match_keyword kw s = Some (g1, g2, g3, g4, rest)" by simp
    from match_keyword_groups [OF this] show ?thesis by simp
  qed
qed

lemma search_groups:
  "search left s = Some (b, g1, g2, g3, g4, rest) \<Longrightarrow>
     lower g1 \<in> set KEYWORDS \<and>
     (\<exists>v. v \<noteq> [] \<and>
       ((g2 = Some v \<and> g3 = None \<and> g4 = None) \<or>
        (g2 = None \<and> g3 = Some v \<and> g4 = None) \<or>
        (g2 = None \<and> g3 = None \<and> g4 = Some v)))"
proof (induction s arbitrary: left)
  case Nil
  then show ?case by simp
next
  case (Cons c cs)
  show ?case
  proof (cases "if word_boundary left (c # cs) then match_keywords KEYWORDS (c # cs) else None")
    case None
    with Cons.prems have "search (left @ [c]) cs = Some (b, g1, g2, g3, g4, rest)" by simp
    from Cons.IH [OF this] show ?thesis .
  next
    case (Some m)
    with Cons.prems have "match_keywords KEYWORDS (c # cs) = Some (g1, g2, g3, g4, rest)"
      by (auto split: if_splits)
    then show ?thesis by (rule match_keywords_groups)
  qed
qed

lemma isspace_lower_char: "isspace c \<Longrightarrow> lower_char c = c"
  unfolding isspace_def
  apply (simp only: list.set insert_iff empty_iff)
  apply (elim disjE FalseE; simp add: lower_char_def lower_table_def)
  done

lemma keyword_no_space: "kw \<in> set KEYWORDS \<Longrightarrow> c \<in> set kw \<Longrightarrow> \<not> isspace c"
  unfolding KEYWORDS_def
  apply (simp only: list.set insert_iff empty_iff)
  apply (elim disjE FalseE; simp only: list.set insert_iff empty_iff)
  apply (elim disjE FalseE; simp add: isspace_def)+
  done

lemma strip_keyword:
  assumes "lower g1 \<in> set KEYWORDS"
  shows "strip g1 = g1"
proof (rule strip_no_space, rule ballI)
  fix c assume c: "c \<in> set g1"
  show "\<not> isspace c"
  proof
    assume s: "isspace c"
    from c have "lower_char c \<in> set (lower g1)" by (simp add: lower_def)
    with isspace_lower_char [OF s] have "c \<in> set (lower g1)" by simp
    from keyword_no_space [OF assms this] s show False by simp
  qed
qed

lemma lower_char_s: "lower_char (CHR ''s'') = CHR ''s''"
  by (simp add: lower_char_def lower_table_def)

lemma target_of_keyword:
  "lower g1 \<in> set KEYWORDS \<Longrightarrow> lower (strip g1 @ ''s'') = lower g1 @ ''s''"
  by (simp add: strip_keyword) (simp add: lower_def lower_char_s)

subsection \<open>What a pass of the loop stores\<close>

lemma map_of_grow:
  "map_of (grow key xs d) k = map_option (\<lambda>vs. if k = key then vs @ xs else vs) (map_of d k)"
  by (induction d) (auto simp: grow_def)

lemma entry_grow_other: "k \<noteq> key \<Longrightarrow> entry (grow key xs d) k = entry d k"
  by (cases "map_of d k") (simp_all add: entry_def map_of_grow)

lemma entry_grow_same: "map_of d key \<noteq> None \<Longrightarrow> entry (grow key xs d) key = entry d key @ xs"
  by (cases "map_of d key") (simp_all add: entry_def map_of_grow)

lemma dict_extend_grow: "dict_extend key xs d = Inr d' \<Longrightarrow> d' = grow key xs d"
  by (auto simp: dict_extend_def split: option.splits)

lemma dict_get_append_grow:
  "dict_get_append key x d = Inr d' \<Longrightarrow> d' = grow key [x] d \<and> map_of d key \<noteq> None"
  by (auto simp: dict_get_append_def split: option.splits)

lemma split_groups:
  assumes "LANGUAGE_MATCHER_split query = Some (s0, s1, s2, s3, s4, s5)"
  shows "lower s1 \<in> set KEYWORDS"
    and "\<exists>v. v \<noteq> [] \<and>
       ((s2 = Some v \<and> s3 = None \<and> s4 = None) \<or>
        (s2 = None \<and> s3 = Some v \<and> s4 = None) \<or>
        (s2 = None \<and> s3 = None \<and> s4 = Some v))"
  using assms search_groups [of "[]" query s0 s1 s2 s3 s4 s5]
  by (simp_all add: LANGUAGE_MATCHER_split_def)

lemma keyword_keys:
  assumes "kw \<in> set KEYWORDS" "t \<in> set KEYWORDS"
  shows "kw @ ''s'' \<noteq> t @ ''s_exact''"
    and "kw @ ''s'' \<noteq> ''remaining''"
    and "kw @ ''s_exact'' \<noteq> ''remaining''"
  using assms by (auto simp: KEYWORDS_def)

lemma parse_step_break:
  assumes "parse_step query result = Break r"
  shows "LANGUAGE_MATCHER_split query = None"
    and "k \<noteq> ''remaining'' \<Longrightarrow> entry r k = entry result k"
proof -
  show n: "LANGUAGE_MATCHER_split query = None"
  proof (cases "LANGUAGE_MATCHER_split query")
    case None
    then show ?thesis .
  next
    case (Some m)
    obtain s0 s1 s2 s3 s4 s5 where "m = (s0, s1, s2, s3, s4, s5)"
      by (cases m) auto
    with Some assms show ?thesis
      by (simp add: parse_step_def Let_def split: sum.splits)
  qed
  assume k: "k \<noteq> ''remaining''"
  from assms n have "r = result \<or> r = grow ''remaining'' (split_remaining query) result"
    by (auto simp: parse_step_def split: sum.splits if_splits dest: dict_extend_grow)
  with k show "entry r k = entry result k"
    by (auto simp: entry_grow_other)
qed

lemma parse_step_continue:
  assumes split: "LANGUAGE_MATCHER_split query = Some (s0, s1, s2, s3, s4, s5)"
    and step: "parse_step query result = Continue q' r'"
    and kw: "kw \<in> set KEYWORDS"
  shows "q' = strip s5"
    and "entry r' (kw @ ''s_exact'') = entry result (kw @ ''s_exact'') @
           (if lower s1 = kw then (case s2 of Some v \<Rightarrow> [strip v] | None \<Rightarrow> []) else [])"
    and "entry r' (kw @ ''s'') = entry result (kw @ ''s'') @
           (if lower s1 = kw then
              (case s2 of
                 Some v \<Rightarrow> []
               | None \<Rightarrow>
                   (case s3 of
                      Some v \<Rightarrow> [strip (remove_backslashes v)]
                    | None \<Rightarrow>
                        (case s4 of Some v \<Rightarrow> [strip (remove_backslashes v)] | None \<Rightarrow> [])))
            else [])"
proof -
  note t = split_groups(1) [OF split]
  note target = target_of_keyword [OF t]
  from split_groups(2) [OF split] obtain v where v: "v \<noteq> []"
    and g: "(s2 = Some v \<and> s3 = None \<and> s4 = None) \<or>
            (s2 = None \<and> s3 = Some v \<and> s4 = None) \<or>
            (s2 = None \<and> s3 = None \<and> s4 = Some v)"
    by blast
  from step split obtain r1 where
    r1: "(if strip s0 \<noteq> [] then dict_extend ''remaining'' (split_remaining (strip s0)) result
          else Inr result) = Inr r1"
    and r0: "(if strip (remove_backslashes (or_str s3 (or_str s4 []))) \<noteq> [] \<and>
                 \<not> strip (or_str s2 []) \<noteq> [] then
                dict_get_append (lower (strip s1 @ ''s''))
                  (strip (remove_backslashes (or_str s3 (or_str s4 [])))) r1
              else if strip (or_str s2 []) \<noteq> [] \<and>
                 \<not> strip (remove_backslashes (or_str s3 (or_str s4 []))) \<noteq> [] then
                dict_get_append (lower (strip s1 @ ''s'') @ ''_exact'')
                  (strip (or_str s2 [])) r1
              else Inl ValueError) = Inr r'"
    and q': "q' = strip s5"
    by (auto simp: parse_step_def Let_def split: sum.splits)
  have r': "(if strip (remove_backslashes (or_str s3 (or_str s4 []))) \<noteq> [] \<and>
                 \<not> strip (or_str s2 []) \<noteq> [] then
                dict_get_append (lower s1 @ ''s'')
                  (strip (remove_backslashes (or_str s3 (or_str s4 [])))) r1
              else if strip (or_str s2 []) \<noteq> [] \<and>
                 \<not> strip (remove_backslashes (or_str s3 (or_str s4 []))) \<noteq> [] then
                dict_get_append (lower s1 @ ''s_exact'') (strip (or_str s2 [])) r1
              else Inl ValueError) = Inr r'"
    using r0 unfolding target by (auto split: if_splits)
  show "q' = strip s5" by (rule q')
  from r1 have "r1 = result \<or> r1 = grow ''remaining'' (split_remaining (strip s0)) result"
    by (auto split: if_splits dest: dict_extend_grow)
  then have e1: "\<And>k. k \<noteq> ''remaining'' \<Longrightarrow> entry r1 k = entry result k"
    by (auto simp: entry_grow_other)
  note kk = keyword_keys [OF kw t] keyword_keys [OF t kw]
  from g consider
      (exact) "s2 = Some v" "s3 = None" "s4 = None"
    | (quoted) "s2 = None" "s3 = Some v" "s4 = None"
    | (plain) "s2 = None" "s3 = None" "s4 = Some v"
    by blast
  then have
    "entry r' (kw @ ''s_exact'') = entry result (kw @ ''s_exact'') @
           (if lower s1 = kw then (case s2 of Some v \<Rightarrow> [strip v] | None \<Rightarrow> []) else []) \<and>
     entry r' (kw @ ''s'') = entry result (kw @ ''s'') @
           (if lower s1 = kw then
              (case s2 of
                 Some v \<Rightarrow> []
               | None \<Rightarrow>
                   (case s3 of
                      Some v \<Rightarrow> [strip (remove_backslashes v)]
                    | None \<Rightarrow>
                        (case s4 of Some v \<Rightarrow> [strip (remove_backslashes v)] | None \<Rightarrow> [])))
            else [])"
  proof cases
    case exact
    with r' v have a: "dict_get_append (lower s1 @ ''s_exact'') (strip v) r1 = Inr r'"
      by (auto simp: or_str_def remove_backslashes_def strip_def split: if_splits)
    from dict_get_append_grow [OF a]
    have r: "r' = grow (lower s1 @ ''s_exact'') [strip v] r1"
      and p: "map_of r1 (lower s1 @ ''s_exact'') \<noteq> None" by simp_all
    show ?thesis
      using exact kk e1 p
      by (auto simp: r entry_grow_other entry_grow_same)
  next
    case quoted
    with r' v have a: "dict_get_append (lower s1 @ ''s'') (strip (remove_backslashes v)) r1 = Inr r'"
      by (auto simp: or_str_def strip_def split: if_splits)
    from dict_get_append_grow [OF a]
    have r: "r' = grow (lower s1 @ ''s'') [strip (remove_backslashes v)] r1"
      and p: "map_of r1 (lower s1 @ ''s'') \<noteq> None" by simp_all
    show ?thesis
      using quoted kk e1 p
      by (auto simp: r entry_grow_other entry_grow_same)
  next
    case plain
    with r' v have a: "dict_get_append (lower s1 @ ''s'') (strip (remove_backslashes v)) r1 = Inr r'"
      by (auto simp: or_str_def strip_def split: if_splits)
    from dict_get_append_grow [OF a]
    have r: "r' = grow (lower s1 @ ''s'') [strip (remove_backslashes v)] r1"
      and p: "map_of r1 (lower s1 @ ''s'') \<noteq> None" by simp_all
    show ?thesis
      using plain kk e1 p
      by (auto simp: r entry_grow_other entry_grow_same)
  qed
  then show "entry r' (kw @ ''s_exact'') = entry result (kw @ ''s_exact'') @
           (if lower s1 = kw then (case s2 of Some v \<Rightarrow> [strip v] | None \<Rightarrow> []) else [])"
    and "entry r' (kw @ ''s'') = entry result (kw @ ''s'') @
           (if lower s1 = kw then
              (case s2 of
                 Some v \<Rightarrow> []
               | None \<Rightarrow>
                   (case s3 of
                      Some v \<Rightarrow> [strip (remove_backslashes v)]
                    | None \<Rightarrow>
                        (case s4 of Some v \<Rightarrow> [strip (remove_backslashes v)] | None \<Rightarrow> [])))
            else [])"
    by simp_all
qed

lemma values_no_match:
  assumes "LANGUAGE_MATCHER_split query = None"
  shows "doubled_quoted_values kw query = []" and "quoted_or_plain_values kw query = []"
  using assms
  by (simp_all add: doubled_quoted_values_def quoted_or_plain_values_def
      keyword_matches.simps [of query])

lemma values_match:
  assumes "LANGUAGE_MATCHER_split query = Some (s0, s1, s2, s3, s4, s5)"
  shows "doubled_quoted_values kw query =
           (if lower s1 = kw then (case s2 of Some v \<Rightarrow> [strip v] | None \<Rightarrow> []) else []) @
           doubled_quoted_values kw (strip s5)"
    and "quoted_or_plain_values kw query =
           (if lower s1 = kw then
              (case s2 of
                 Some v \<Rightarrow> []
               | None \<Rightarrow>
                   (case s3 of
                      Some v \<Rightarrow> [strip (remove_backslashes v)]
                    | None \<Rightarrow>
                        (case s4 of Some v \<Rightarrow> [strip (remove_backslashes v)] | None \<Rightarrow> [])))
            else []) @
           quoted_or_plain_values kw (strip s5)"
  using assms
  by (simp_all add: doubled_quoted_values_def quoted_or_plain_values_def
      keyword_matches.simps [of query])

lemma parse_loop_values:
  assumes "parse_loop query result = Inr r" and "kw \<in> set KEYWORDS"
  shows "entry r (kw @ ''s_exact'') =
           entry result (kw @ ''s_exact'') @ doubled_quoted_values kw query \<and>
         entry r (kw @ ''s'') =
           entry result (kw @ ''s'') @ quoted_or_plain_values kw query"
  using assms
proof (induction query result rule: parse_loop.induct)
  case (1 query result)
  note kw = "1.prems"(2)
  show ?case
  proof (cases "parse_step query result")
    case (Break r')
    with "1.prems"(1) have r: "r = r'" by (simp add: parse_loop.simps [of query result])
    from parse_step_break(1) [OF Break] have n: "LANGUAGE_MATCHER_split query = None" .
    have "kw @ ''s_exact'' \<noteq> ''remaining''" "kw @ ''s'' \<noteq> ''remaining''"
      using keyword_keys [OF kw kw] by simp_all
    then show ?thesis
      using parse_step_break(2) [OF Break] values_no_match [OF n] r by simp
  next
    case (Raise e)
    with "1.prems"(1) show ?thesis by (simp add: parse_loop.simps [of query result])
  next
    case (Continue q' r')
    with "1.prems"(1) have l: "parse_loop q' r' = Inr r"
      by (simp add: parse_loop.simps [of query result])
    from Continue obtain m where "LANGUAGE_MATCHER_split query = Some m"
      by (cases "LANGUAGE_MATCHER_split query")
         (auto simp: parse_step_def split: sum.splits)
    then obtain s0 s1 s2 s3 s4 s5 where
      split: "LANGUAGE_MATCHER_split query = Some (s0, s1, s2, s3, s4, s5)"
      by (cases m) auto
    note step = parse_step_continue [OF split Continue kw]
    note ih = "1.IH" [OF Continue l kw]
    show ?thesis
      using ih step(2,3) values_match [OF split, of kw]
      unfolding step(1) by simp
  qed
qed


text \<open>
  C4. The claim: for every keyword match, a value in doubled double quotes is appended
  to the exact list of the category and a value in single double quotes or without
  quotes to its contains list. The query \<open>title:x artist:" "\<close> has two keyword
  matches, \<open>x\<close> without quotes and one space in single double quotes; the pass that
  meets the second one raises, so neither value ends in a list.
\<close>

theorem blank_value_not_appended:
  "keyword_matches ''title:x artist:\" \"'' =
     [(''title'', None, None, Some ''x''), (''artist'', None, Some '' '', None)] \<and>
   parse_step ''artist:\" \"''
     [(''artists'', []), (''artists_exact'', []), (''works'', []), (''works_exact'', []),
      (''titles'', [''x'']), (''titles_exact'', []), (''remaining'', [])] =
     Raise ValueError \<and>
   parse ''title:x artist:\" \"'' = Inl ValueError"
  by code_simp

text \<open>
  C4 as amended: whenever \<open>parse\<close> returns, the exact list of a category holds
  exactly the values of its matches written with doubled double quotes, and its
  contains list exactly the values written with single double quotes or without
  quotes, each list in the order of the matches. In particular the query
  \<open>artist:Foo title:"Bar Baz"\<close> gives \<open>Foo\<close> in the contains list of the artists
  and \<open>Bar Baz\<close> in the contains list of the titles, not in the exact one.
\<close>


theorem quote_style_determines_mode:
  "(parse query = Inr r \<and> kw \<in> set KEYWORDS \<longrightarrow>
      map_of r (kw @ ''s_exact'') = Some (doubled_quoted_values kw query) \<and>
      map_of r (kw @ ''s'') = Some (quoted_or_plain_values kw query)) \<and>
   parse ''artist:Foo title:\"Bar Baz\"'' =
     Inr [(''artists'', [''Foo'']), (''artists_exact'', []), (''works'', []),
          (''works_exact'', []), (''titles'', [''Bar Baz'']), (''titles_exact'', []),
          (''remaining'', [])]"
proof -
  have p: "parse ''artist:Foo title:\"Bar Baz\"'' =
     Inr [(''artists'', [''Foo'']), (''artists_exact'', []), (''works'', []),
          (''works_exact'', []), (''titles'', [''Bar Baz'']), (''titles_exact'', []),
          (''remaining'', [])]"
    by code_simp
  have g: "map_of r (kw @ ''s_exact'') = Some (doubled_quoted_values kw query) \<and>
      map_of r (kw @ ''s'') = Some (quoted_or_plain_values kw query)"
    if r: "parse query = Inr r" and kw: "kw \<in> set KEYWORDS"
  proof -
    from r have l: "parse_loop query initial_result = Inr r" by (simp add: parse_def)
    have keys: "map fst r = map fst initial_result"
      using parse_loop_keys [OF l] .
    have i: "entry initial_result (kw @ ''s_exact'') = []" "entry initial_result (kw @ ''s'') = []"
      using kw by (auto simp: KEYWORDS_def entry_def initial_result_def)
    have d: "kw @ ''s_exact'' \<in> set (map fst r)" "kw @ ''s'' \<in> set (map fst r)"
      unfolding keys using kw by (auto simp: KEYWORDS_def initial_result_def)
    then obtain a b where ab: "map_of r (kw @ ''s_exact'') = Some a" "map_of r (kw @ ''s'') = Some b"
      by (metis map_of_eq_None_iff not_None_eq set_map)
    with parse_loop_values [OF l kw] i show ?thesis
      by (simp add: entry_def)
  qed
  from p g show ?thesis by blast
qed


theorem quote_style_determines_mode_witness:
  "parse ''title:x artist:\"\"A B\"\" Title:\"c d\"'' =
     Inr [(''artists'', []), (''artists_exact'', [''A B'']), (''works'', []),
          (''works_exact'', []), (''titles'', [''x'', ''c d'']), (''titles_exact'', []),
          (''remaining'', [])] \<and>
   ''artist'' \<in> set KEYWORDS \<and>
   doubled_quoted_values ''artist'' ''title:x artist:\"\"A B\"\" Title:\"c d\"'' = [''A B''] \<and>
   quoted_or_plain_values ''artist'' ''title:x artist:\"\"A B\"\" Title:\"c d\"'' = []"
proof -
  have p: "parse ''title:x artist:\"\"A B\"\" Title:\"c d\"'' =
     Inr [(''artists'', []), (''artists_exact'', [''A B'']), (''works'', []),
          (''works_exact'', []), (''titles'', [''x'', ''c d'']), (''titles_exact'', []),
          (''remaining'', [])]"
    by code_simp
  have k: "''artist'' \<in> set KEYWORDS" by (simp add: KEYWORDS_def)
  from quote_style_determines_mode
    [of "''title:x artist:\"\"A B\"\" Title:\"c d\"''"
      "[(''artists'', []), (''artists_exact'', [''A B'']), (''works'', []),
        (''works_exact'', []), (''titles'', [''x'', ''c d'']), (''titles_exact'', []),
        (''remaining'', [])]" "''artist''"] p k
  show ?thesis by simp
qed


section \<open>Properties of the song search\<close>

lemma foldl_append_each: "foldl (\<lambda>acc x. acc @ [f x]) acc xs = acc @ map f xs"
  by (induction xs arbitrary: acc) simp_all

lemma foldl_append_work_type:
  "foldl (\<lambda>acc (query_name, search_keywords).
      foldl (\<lambda>acc keyword. acc @ [g query_name keyword])
        (foldl (\<lambda>acc keyword. acc @ [f query_name keyword]) acc (contains search_keywords))
        (exact search_keywords)) acc wts =
   acc @ concat (map (\<lambda>(query_name, search_keywords).
      map (f query_name) (contains search_keywords) @
      map (g query_name) (exact search_keywords)) wts)"
  by (induction wts arbitrary: acc) (auto simp: foldl_append_each)

lemma search_terms_many:
  "snd (search_terms res) =
     map (Q ''artists__name__icontains'') (contains (artist res)) @
     map (Q ''artists__name__iexact'') (exact (artist res)) @
     map (Q ''tags__name'') (tag res)"
  by (simp add: search_terms_def Let_def foldl_append_each)

lemma search_terms_single_independent:
  "fst (search_terms (res\<lparr>artist := a, tag := t\<rparr>)) = fst (search_terms res)"
  by (simp add: search_terms_def Let_def)

lemma foldl_filter_each:
  "foldl (\<lambda>query_set item. query_set @ [Filter item]) query_set items =
   query_set @ map Filter items"
  by (induction items arbitrary: query_set) simp_all

text \<open>
  C1. Isolation of the multi-valued terms: for every parsed query, the search makes
  one filter call with the conjunction of \<open>query_list\<close> and then one filter call of
  its own for every artist term, contains and exact, and for every tag term, in this
  order; no two of them share a call. The conjunction of the first call is built
  without them: it is the same when the artist and tag terms are taken away.
\<close>

theorem multi_valued_terms_isolated:
  "apply_search res query_set =
     query_set @ [Filter (foldl Q_and Q_empty (fst (search_terms res)))] @
     map (\<lambda>a. Filter (Q ''artists__name__icontains'' a)) (contains (artist res)) @
     map (\<lambda>a. Filter (Q ''artists__name__iexact'' a)) (exact (artist res)) @
     map (\<lambda>t. Filter (Q ''tags__name'' t)) (tag res) \<and>
   fst (search_terms res) =
     fst (search_terms (res\<lparr>artist := \<lparr>contains = [], exact = []\<rparr>, tag := []\<rparr>))"
proof -
  obtain query_list query_list_many where st: "search_terms res = (query_list, query_list_many)"
    by (cases "search_terms res") auto
  have "query_list_many =
     map (Q ''artists__name__icontains'') (contains (artist res)) @
     map (Q ''artists__name__iexact'') (exact (artist res)) @
     map (Q ''tags__name'') (tag res)"
    using search_terms_many [of res] st by simp
  then have "apply_search res query_set =
     query_set @ [Filter (foldl Q_and Q_empty (fst (search_terms res)))] @
     map (\<lambda>a. Filter (Q ''artists__name__icontains'' a)) (contains (artist res)) @
     map (\<lambda>a. Filter (Q ''artists__name__iexact'' a)) (exact (artist res)) @
     map (\<lambda>t. Filter (Q ''tags__name'' t)) (tag res)"
    using st by (simp add: apply_search_def Let_def foldl_filter_each comp_def)
  then show ?thesis
    using search_terms_single_independent
      [where res = res and a = "\<lparr>contains = [], exact = []\<rparr>" and t = "[]"]
    by simp
qed

text \<open>
  C2. The claim: the group of a free-text term, which has the artist relation among
  its alternatives, is applied in a filter call of its own and never merged into the
  conjunction. The source appends the group to \<open>query_list\<close>: for every parsed
  query the groups of the free-text terms are the end of \<open>query_list\<close> and none of
  them is in \<open>query_list_many\<close>; for the two free-text terms \<open>foo\<close> and \<open>bar\<close> the
  search is the single filter call below, with both groups in one conjunction.
\<close>

theorem free_text_groups_merged:
  "fst (search_terms res) =
     fst (search_terms (res\<lparr>remaining := []\<rparr>)) @
     map (\<lambda>remain.
       Q_or (Q_or (Q_or (Q_or (Q_or (Q_or
         (Q ''title__icontains'' remain)
         (Q ''artists__name__icontains'' remain))
         (Q ''works__title__icontains'' remain))
         (Q ''works__alternative_title__title__icontains'' remain))
         (Q ''version__icontains'' remain))
         (Q ''detail__icontains'' remain))
         (Q ''detail_video__icontains'' remain)) (remaining res) \<and>
   snd (search_terms res) = snd (search_terms (res\<lparr>remaining := []\<rparr>)) \<and>
   apply_search
     \<lparr>artist = \<lparr>contains = [], exact = []\<rparr>, title = \<lparr>contains = [], exact = []\<rparr>,
      work = \<lparr>contains = [], exact = []\<rparr>, work_type = [],
      remaining = [''foo'', ''bar''], tag = []\<rparr> [] =
   [Filter
      (Q_and
        (Q_and Q_empty
          (Q_or (Q_or (Q_or (Q_or (Q_or (Q_or
            (Q ''title__icontains'' ''foo'')
            (Q ''artists__name__icontains'' ''foo''))
            (Q ''works__title__icontains'' ''foo''))
            (Q ''works__alternative_title__title__icontains'' ''foo''))
            (Q ''version__icontains'' ''foo''))
            (Q ''detail__icontains'' ''foo''))
            (Q ''detail_video__icontains'' ''foo'')))
        (Q_or (Q_or (Q_or (Q_or (Q_or (Q_or
          (Q ''title__icontains'' ''bar'')
          (Q ''artists__name__icontains'' ''bar''))
          (Q ''works__title__icontains'' ''bar''))
          (Q ''works__alternative_title__title__icontains'' ''bar''))
          (Q ''version__icontains'' ''bar''))
          (Q ''detail__icontains'' ''bar''))
          (Q ''detail_video__icontains'' ''bar'')))]"
proof -
  have general:
    "fst (search_terms res) =
       fst (search_terms (res\<lparr>remaining := []\<rparr>)) @
       map (\<lambda>remain.
         Q_or (Q_or (Q_or (Q_or (Q_or (Q_or
           (Q ''title__icontains'' remain)
           (Q ''artists__name__icontains'' remain))
           (Q ''works__title__icontains'' remain))
           (Q ''works__alternative_title__title__icontains'' remain))
           (Q ''version__icontains'' remain))
           (Q ''detail__icontains'' remain))
           (Q ''detail_video__icontains'' remain)) (remaining res)"
    "snd (search_terms res) = snd (search_terms (res\<lparr>remaining := []\<rparr>))"
    by (simp_all add: search_terms_def Let_def foldl_append_each)
  have concrete: "apply_search
     \<lparr>artist = \<lparr>contains = [], exact = []\<rparr>, title = \<lparr>contains = [], exact = []\<rparr>,
      work = \<lparr>contains = [], exact = []\<rparr>, work_type = [],
      remaining = [''foo'', ''bar''], tag = []\<rparr> [] =
   [Filter
      (Q_and
        (Q_and Q_empty
          (Q_or (Q_or (Q_or (Q_or (Q_or (Q_or
            (Q ''title__icontains'' ''foo'')
            (Q ''artists__name__icontains'' ''foo''))
            (Q ''works__title__icontains'' ''foo''))
            (Q ''works__alternative_title__title__icontains'' ''foo''))
            (Q ''version__icontains'' ''foo''))
            (Q ''detail__icontains'' ''foo''))
            (Q ''detail_video__icontains'' ''foo'')))
        (Q_or (Q_or (Q_or (Q_or (Q_or (Q_or
          (Q ''title__icontains'' ''bar'')
          (Q ''artists__name__icontains'' ''bar''))
          (Q ''works__title__icontains'' ''bar''))
          (Q ''works__alternative_title__title__icontains'' ''bar''))
          (Q ''version__icontains'' ''bar''))
          (Q ''detail__icontains'' ''bar''))
          (Q ''detail_video__icontains'' ''bar'')))]"
    by (simp add: apply_search_def search_terms_def)
  from general concrete show ?thesis by simp
qed





end
